theory Spec2Isabelle
  imports Main "HOL-Library.Sublist"
begin

section \<open>Configuration of \<^verbatim>\<open>fix_tools.py\<close>\<close>

text \<open>
  The script rewrites a fixed list of TypeScript tool executors. A text is a
  \<^typ>\<open>string\<close>: the text that Python reads from the file or writes to it, held as
  its UTF-8 bytes. Every pattern of the script is ASCII and the bytes of a multi-byte code
  point are all above 127, so matching on bytes and matching on code points agree for
  these patterns.
\<close>

definition tools :: "string list" where
  "tools = [''ProjectScaffoldingTool.ts'', ''DatabaseSchemaTool.ts'',
            ''APIDocumentationTool.ts'']"

definition categories :: "string \<rightharpoonup> string" where
  "categories = map_of
     [(''ProjectScaffoldingTool.ts'', ''Project Management''),
      (''DatabaseSchemaTool.ts'', ''Database''),
      (''APIDocumentationTool.ts'', ''Documentation'')]"

text \<open>\<^verbatim>\<open>categories.get(tool, default)\<close>: the dictionary lookup with a default.\<close>

definition categories_get :: "string \<Rightarrow> string \<Rightarrow> string" where
  "categories_get tool dflt = (case categories tool of Some label \<Rightarrow> label | None \<Rightarrow> dflt)"

definition filepath :: "string \<Rightarrow> string" where
  "filepath tool = ''src/agent/executors/'' @ tool"

section \<open>\<^verbatim>\<open>re.sub\<close>\<close>

text \<open>
  A compiled pattern is modelled by its matcher: applied to the text that starts at
  the current position, it returns the length of the match that starts there, if any.
  \<^verbatim>\<open>re.sub(pattern, repl, text)\<close> scans from the left; at a match it emits the
  replacement of the matched text and continues behind the match, otherwise it copies one
  character. An empty match emits the replacement and copies the next character.
\<close>

type_synonym matcher = "string \<Rightarrow> nat option"

fun re_sub :: "matcher \<Rightarrow> (string \<Rightarrow> string) \<Rightarrow> string \<Rightarrow> string" where
  "re_sub m f [] = (case m [] of None \<Rightarrow> [] | Some n \<Rightarrow> f [])"
| "re_sub m f (c # cs) =
     (case m (c # cs) of
        None \<Rightarrow> c # re_sub m f cs
      | Some n \<Rightarrow>
          if n = 0 then f [] @ c # re_sub m f cs
          else f (take n (c # cs)) @ re_sub m f (drop (n - 1) cs))"

text \<open>Whether the pattern matches at some position of the text.\<close>

fun has_match :: "matcher \<Rightarrow> string \<Rightarrow> bool" where
  "has_match m [] = (case m [] of None \<Rightarrow> False | Some n \<Rightarrow> True)"
| "has_match m (c # cs) = (case m (c # cs) of None \<Rightarrow> has_match m cs | Some n \<Rightarrow> True)"

text \<open>
  A pattern without metacharacters matches exactly its own text. In the three literal
  patterns of the script the braces are not repetition counts (no digits follow the
  opening brace), so they stand for themselves, and \<^verbatim>\<open>\(\<close>, \<^verbatim>\<open>\)\<close> are
  the parentheses.
\<close>

definition match_literal :: "string \<Rightarrow> matcher" where
  "match_literal p s = (if prefix p s then Some (length p) else None)"

definition is_quote :: "char \<Rightarrow> bool" where
  "is_quote c = (c = CHR 0x27 \<or> c = CHR 0x22)"

text \<open>
  The pattern \<^verbatim>\<open>(description: ['"][^'"]+['"],)\<close>: the field name, a quote, the
  longest run of characters that are not quotes (at least one; a line break counts), a
  quote and a comma. The run is greedy, and giving characters back cannot help: the
  character behind a shorter run is not a quote.
\<close>

definition match_description :: matcher where
  "match_description s =
     (if prefix ''description: '' s then
        (case drop 13 s of
           [] \<Rightarrow> None
         | q # rest \<Rightarrow>
             if is_quote q then
               (let body = takeWhile (\<lambda>c. \<not> is_quote c) rest in
                if body = [] then None
                else (case dropWhile (\<lambda>c. \<not> is_quote c) rest of
                        q' # c # _ \<Rightarrow> if c = CHR '','' then Some (16 + length body) else None
                      | _ \<Rightarrow> None))
             else None)
      else None)"

section \<open>The four rewriting rules\<close>

definition import_old :: string where
  "import_old = ''import { ToolExecutor, ToolResult } from''"

definition import_new :: string where
  "import_new = ''import { ToolExecutor, ToolResult, ToolMetadata } from''"

definition metadata_old :: string where
  "metadata_old = ''static metadata = {''"

definition metadata_new :: string where
  "metadata_new = ''public metadata: ToolMetadata = {''"

definition execute_old :: string where
  "execute_old = ''async execute(params: Record<string, any>): Promise<ToolResult>''"

definition execute_new :: string where
  "execute_new = ''async execute(params: any, context: { workspaceRoot: string; outputChannel: any; onProgress?: (message: string) => void }): Promise<ToolResult>''"

text \<open>Fix imports.\<close>

definition fix_imports :: "string \<Rightarrow> string" where
  "fix_imports content = re_sub (match_literal import_old) (\<lambda>_. import_new) content"

text \<open>Fix metadata declaration.\<close>

definition fix_metadata :: "string \<Rightarrow> string" where
  "fix_metadata content = re_sub (match_literal metadata_old) (\<lambda>_. metadata_new) content"

text \<open>
  Add category. The replacement template is the raw f-string
  \<^verbatim>\<open>rf'\1\n        category: \'{category}\','\<close>. In a raw string literal
  \<^verbatim>\<open>\'\<close> is two characters, a backslash and a quote. The template expansion of
  \<^verbatim>\<open>re.sub\<close> replaces \<^verbatim>\<open>\1\<close> by the matched group and \<^verbatim>\<open>\n\<close> by a line
  break, and leaves an escape it does not know, such as \<^verbatim>\<open>\'\<close>, as it stands: both
  characters reach the output. \<open>category_line\<close> is what follows the group. The labels the
  script can pass (the values of \<open>categories\<close> and the default) contain no backslash, so
  the template expansion copies them.
\<close>

definition category_line :: "string \<Rightarrow> string" where
  "category_line category =
     CHR 0x0A # ''        category: '' @ [CHR 0x5C, CHR 0x27] @ category @ [CHR 0x5C, CHR 0x27] @ '',''"

definition add_category :: "string \<Rightarrow> string \<Rightarrow> string" where
  "add_category category content =
     re_sub match_description (\<lambda>group1. group1 @ category_line category) content"

text \<open>Fix execute method signature.\<close>

definition fix_execute :: "string \<Rightarrow> string" where
  "fix_execute content = re_sub (match_literal execute_old) (\<lambda>_. execute_new) content"

text \<open>The body of the loop between reading and writing the file.\<close>

definition fix_content :: "string \<Rightarrow> string \<Rightarrow> string" where
  "fix_content tool content =
     (let content = fix_imports content;
          content = fix_metadata content;
          category = categories_get tool ''Development'';
          content = add_category category content;
          content = fix_execute content
      in content)"

section \<open>Reading, rewriting and writing the files\<close>

text \<open>
  A path of the file system holds a node or nothing. The \<open>contents\<close> of a node are
  the text that \<^verbatim>\<open>f.read()\<close> returns; a node that exists but cannot be read as
  UTF-8 text (a directory, bytes that do not decode) has none, and reading it raises. A
  node that is not \<open>writable\<close> makes \<^verbatim>\<open>open(filepath, 'w')\<close> raise. Either
  exception is uncaught and ends the run. \<open>stdout\<close> holds the printed lines.
\<close>

datatype error = ReadError | WriteError

record node =
  contents :: "string option"
  writable :: bool

record world =
  files :: "string \<rightharpoonup> node"
  stdout :: "string list"

text \<open>One round of the loop \<^verbatim>\<open>for tool in tools\<close>.\<close>

definition fix_tool :: "string \<Rightarrow> world \<Rightarrow> error + world" where
  "fix_tool tool w =
     (case files w (filepath tool) of
        None \<Rightarrow> Inr w
      | Some n \<Rightarrow>
          (case contents n of
             None \<Rightarrow> Inl ReadError
           | Some content \<Rightarrow>
               if writable n then
                 Inr (w\<lparr>files := (files w)(filepath tool \<mapsto>
                                   n\<lparr>contents := Some (fix_content tool content)\<rparr>),
                        stdout := stdout w @ [''Fixed '' @ tool]\<rparr>)
               else Inl WriteError))"

fun for_tools :: "string list \<Rightarrow> world \<Rightarrow> error + world" where
  "for_tools [] w = Inr w"
| "for_tools (tool # rest) w =
     (case fix_tool tool w of Inl e \<Rightarrow> Inl e | Inr w' \<Rightarrow> for_tools rest w')"

text \<open>The script over a list of tools: the loop, then the closing line.\<close>

definition script :: "string list \<Rightarrow> world \<Rightarrow> error + world" where
  "script ts w =
     (case for_tools ts w of
        Inl e \<Rightarrow> Inl e
      | Inr w' \<Rightarrow> Inr (w'\<lparr>stdout := stdout w' @ [''All tools fixed!'']\<rparr>))"

definition main :: "world \<Rightarrow> error + world" where
  "main w = script tools w"

text \<open>The text stored for a tool, if its file exists and is readable.\<close>

definition text_at :: "world \<Rightarrow> string \<Rightarrow> string option" where
  "text_at w tool = (case files w (filepath tool) of None \<Rightarrow> None | Some n \<Rightarrow> contents n)"

text \<open>Every file of the list that exists can be read and written.\<close>

definition usable :: "string list \<Rightarrow> world \<Rightarrow> bool" where
  "usable ts w =
     list_all (\<lambda>t. case files w (filepath t) of
                      None \<Rightarrow> True
                    | Some n \<Rightarrow> (case contents n of None \<Rightarrow> False | Some _ \<Rightarrow> writable n)) ts"

section \<open>Auxiliary notions\<close>

text \<open>A matcher is proper when its matches are not empty and lie inside the text.\<close>

definition proper :: "matcher \<Rightarrow> bool" where
  "proper m = (\<forall>s n. m s = Some n \<longrightarrow> 0 < n \<and> n \<le> length s)"

text \<open>
  \<open>begins_inside q r\<close>: at some position of \<open>r\<close>, the rest of \<open>r\<close> and \<open>q\<close> agree as
  far as both reach, so that an occurrence of \<open>q\<close> could begin there. Two texts are
  \<open>separate\<close> when neither can begin inside the other: an occurrence of one never
  overlaps an occurrence of the other.
\<close>

fun begins_inside :: "'a list \<Rightarrow> 'a list \<Rightarrow> bool" where
  "begins_inside q [] = False"
| "begins_inside q (c # cs) = (prefix q (c # cs) \<or> prefix (c # cs) q \<or> begins_inside q cs)"

definition separate :: "'a list \<Rightarrow> 'a list \<Rightarrow> bool" where
  "separate r q = (\<not> begins_inside q r \<and> \<not> begins_inside r q)"

text \<open>Every occurrence of the field name is followed by an empty single-quoted value.\<close>

fun only_empty_descriptions :: "string \<Rightarrow> bool" where
  "only_empty_descriptions [] = True"
| "only_empty_descriptions (c # cs) =
     ((if prefix ''description: '' (c # cs)
       then prefix (''description: '' @ [CHR 0x27, CHR 0x27, CHR '','']) (c # cs)
       else True) \<and> only_empty_descriptions cs)"

section \<open>Example texts\<close>

text \<open>The minimal legacy module of the specification, and what the script makes of it.\<close>

definition legacy_module :: string where
  "legacy_module = ''import { ToolExecutor, ToolResult } from 'x';\<newline>class C { static metadata = {\<newline>  description: 'd',\<newline>}; async execute(params: Record<string, any>): Promise<ToolResult> {} }''"

definition legacy_module_fixed :: string where
  "legacy_module_fixed = ''import { ToolExecutor, ToolResult, ToolMetadata } from 'x';\<newline>class C { public metadata: ToolMetadata = {\<newline>  description: 'd',\<newline>        category: '' @ [CHR 0x5C, CHR 0x27] @ ''Database'' @ [CHR 0x5C, CHR 0x27] @ '',\<newline>}; async execute(params: any, context: { workspaceRoot: string; outputChannel: any; onProgress?: (message: string) => void }): Promise<ToolResult> {} }''"

text \<open>A metadata block with a second description field, for a parameter.\<close>

definition nested_descriptions :: string where
  "nested_descriptions = ''metadata = { description: 'a', parameters: { path: { description: 'b', } } }''"

definition nested_descriptions_fixed :: string where
  "nested_descriptions_fixed = ''metadata = { description: 'a',\<newline>        category: '' @ [CHR 0x5C, CHR 0x27] @ ''Database'' @ [CHR 0x5C, CHR 0x27] @ '', parameters: { path: { description: 'b',\<newline>        category: '' @ [CHR 0x5C, CHR 0x27] @ ''Database'' @ [CHR 0x5C, CHR 0x27] @ '', } } }''"

text \<open>The same block with a category behind the first description field only.\<close>

definition nested_descriptions_once :: string where
  "nested_descriptions_once = ''metadata = { description: 'a',\<newline>        category: '' @ [CHR 0x5C, CHR 0x27] @ ''Database'' @ [CHR 0x5C, CHR 0x27] @ '', parameters: { path: { description: 'b', } } }''"

text \<open>A legacy module without a description field, and a text no rule applies to.\<close>

definition plain_module :: string where
  "plain_module = ''import { ToolExecutor, ToolResult } from 'x';\<newline>class C { static metadata = {\<newline>}; async execute(params: Record<string, any>): Promise<ToolResult> {} }''"

definition empty_description :: string where
  "empty_description = ''name: 'x', description: '' @ [CHR 0x27, CHR 0x27] @ '', version: 1''"

text \<open>
  File systems: one where the file of the second tool is missing, one that holds only
  that file, and one that holds all three files and has printed a line before.
\<close>

definition world_without_database :: world where
  "world_without_database =
     \<lparr>files = map_of
        [(filepath ''ProjectScaffoldingTool.ts'', \<lparr>contents = Some legacy_module, writable = True\<rparr>),
         (filepath ''APIDocumentationTool.ts'', \<lparr>contents = Some plain_module, writable = True\<rparr>)],
      stdout = []\<rparr>"

definition world_only_database :: world where
  "world_only_database =
     \<lparr>files = map_of
        [(filepath ''DatabaseSchemaTool.ts'', \<lparr>contents = Some legacy_module, writable = True\<rparr>)],
      stdout = []\<rparr>"

definition world_all :: world where
  "world_all =
     \<lparr>files = map_of
        [(filepath ''ProjectScaffoldingTool.ts'', \<lparr>contents = Some plain_module, writable = True\<rparr>),
         (filepath ''DatabaseSchemaTool.ts'', \<lparr>contents = Some legacy_module, writable = True\<rparr>),
         (filepath ''APIDocumentationTool.ts'', \<lparr>contents = Some empty_description, writable = True\<rparr>)],
      stdout = [''started'']\<rparr>"

section \<open>Properties of \<^verbatim>\<open>re.sub\<close>\<close>

lemma begins_inside_iff:
  "begins_inside q r \<longleftrightarrow> (\<exists>j<length r. prefix q (drop j r) \<or> prefix (drop j r) q)"
proof (induction r)
  case Nil
  show ?case by simp
next
  case (Cons c cs)
  show ?case
    by (auto simp: Cons less_Suc_eq_0_disj)
qed

lemma sublist_iff_drop: "sublist q t \<longleftrightarrow> (\<exists>i\<le>length t. prefix q (drop i t))"
proof
  assume "sublist q t"
  then obtain ps ss where "t = ps @ q @ ss" by (auto simp: sublist_def)
  then have "length ps \<le> length t \<and> prefix q (drop (length ps) t)" by simp
  then show "\<exists>i\<le>length t. prefix q (drop i t)" by blast
next
  assume "\<exists>i\<le>length t. prefix q (drop i t)"
  then obtain i zs where "drop i t = q @ zs" by (auto simp: prefix_def)
  then have "t = take i t @ q @ zs" by (metis append_take_drop_id)
  then show "sublist q t" unfolding sublist_def by blast
qed

lemma sublist_of_drop: "sublist q (drop i t) \<Longrightarrow> sublist q t"
  by (metis append_take_drop_id sublist_order.order_trans sublist_append_leftI)

lemma sublist_of_take: "sublist q (take i t) \<Longrightarrow> sublist q t"
  by (metis append_take_drop_id sublist_order.order_trans sublist_append_rightI)

lemma sublist_append_cases:
  assumes "sublist q (a @ b)"
  shows "(\<exists>j<length a. prefix q (drop j a @ b)) \<or> sublist q b"
proof -
  from assms obtain i where i: "i \<le> length (a @ b)" "prefix q (drop i (a @ b))"
    by (auto simp: sublist_iff_drop)
  show ?thesis
  proof (cases "i < length a")
    case True
    with i show ?thesis by auto
  next
    case False
    with i have "prefix q (drop (i - length a) b)" by simp
    then have "sublist q (drop (i - length a) b)" by simp
    then show ?thesis by (blast intro: sublist_of_drop)
  qed
qed

lemma prefix_append_compat: "prefix q (a @ b) \<Longrightarrow> prefix q a \<or> prefix a q"
  by (auto simp: prefix_append)

subsection \<open>Unfolding re_sub\<close>

lemma properD: "proper m \<Longrightarrow> m s = Some n \<Longrightarrow> 0 < n \<and> n \<le> length s"
  unfolding proper_def by blast

lemma proper_Nil: "proper m \<Longrightarrow> m [] = None"
  using properD [of m "[]"] by (cases "m []") auto

lemma re_sub_Nil: "proper m \<Longrightarrow> re_sub m f [] = []"
  by (simp add: proper_Nil)

lemma re_sub_None: "m (c # cs) = None \<Longrightarrow> re_sub m f (c # cs) = c # re_sub m f cs"
  by simp

lemma re_sub_Some:
  assumes "proper m" "m t = Some n"
  shows "re_sub m f t = f (take n t) @ re_sub m f (drop n t)"
proof (cases t)
  case Nil
  with assms show ?thesis by (simp add: proper_Nil)
next
  case (Cons c cs)
  from assms have "0 < n" by (auto dest: properD)
  then obtain k where "n = Suc k" by (cases n) auto
  with Cons assms show ?thesis by simp
qed

lemma re_sub_no_match: "\<not> has_match m t \<Longrightarrow> re_sub m f t = t"
  by (induction t) (auto split: option.splits)

lemma has_match_literal: "has_match (match_literal p) t \<longleftrightarrow> sublist p t"
  by (induction t) (auto simp: match_literal_def sublist_Cons_right)

lemma proper_literal: "p \<noteq> [] \<Longrightarrow> proper (match_literal p)"
  by (auto simp: proper_def match_literal_def prefix_length_le split: if_splits)


subsection \<open>Replacing a literal\<close>

lemma sub_literal_match:
  assumes "p \<noteq> []" "prefix p t"
  shows "re_sub (match_literal p) (\<lambda>_. r) t = r @ re_sub (match_literal p) (\<lambda>_. r) (drop (length p) t)"
  using re_sub_Some [OF proper_literal [OF assms(1)], of t "length p" "\<lambda>_. r"] assms(2)
  by (simp add: match_literal_def)

lemma sub_literal_skip:
  assumes "\<not> prefix p (c # cs)"
  shows "re_sub (match_literal p) (\<lambda>_. r) (c # cs) = c # re_sub (match_literal p) (\<lambda>_. r) cs"
  using assms by (simp add: match_literal_def)

lemma prefix_sub_literal:
  assumes "p \<noteq> []" "\<not> begins_inside r q"
  shows "prefix (drop k q) (re_sub (match_literal p) (\<lambda>_. r) t) \<Longrightarrow> prefix (drop k q) t"
proof (induction t arbitrary: k)
  case Nil
  then show ?case using assms(1) by (simp add: match_literal_def)
next
  case (Cons c cs)
  show ?case
  proof (cases "drop k q")
    case Nil
    then show ?thesis by simp
  next
    case (Cons d q')
    then have k: "k < length q" by (cases "k < length q") auto
    show ?thesis
    proof (cases "prefix p (c # cs)")
      case True
      with Cons.prems have "prefix (drop k q) (r @ re_sub (match_literal p) (\<lambda>_. r) (drop (length p) (c # cs)))"
        by (simp add: sub_literal_match [OF assms(1)] del: re_sub.simps)
      then have "prefix (drop k q) r \<or> prefix r (drop k q)"
        by (rule prefix_append_compat)
      with k have "begins_inside r q"
        unfolding begins_inside_iff by blast
      with assms(2) show ?thesis by simp
    next
      case False
      with Cons.prems have pre: "prefix (drop k q) (c # re_sub (match_literal p) (\<lambda>_. r) cs)"
        by (simp add: sub_literal_skip del: re_sub.simps)
      have q': "q' = drop (Suc k) q"
        using Cons by (metis drop_Suc list.sel(3) tl_drop)
      from pre Cons have "d = c" "prefix q' (re_sub (match_literal p) (\<lambda>_. r) cs)"
        by simp_all
      with Cons.IH [of "Suc k"] q' have "prefix q' cs" by simp
      with \<open>d = c\<close> Cons show ?thesis by simp
    qed
  qed
qed

lemma sublist_sub_literal:
  assumes "p \<noteq> []" "q \<noteq> []" "separate r q"
  shows "sublist q (re_sub (match_literal p) (\<lambda>_. r) t) \<Longrightarrow>
         \<exists>i<length t. prefix q (drop i t) \<and> \<not> prefix p (drop i t)"
proof (induction "length t" arbitrary: t rule: less_induct)
  case less
  let ?sub = "re_sub (match_literal p) (\<lambda>_. r)"
  from assms(3) have nq: "\<not> begins_inside q r" and nr: "\<not> begins_inside r q"
    by (simp_all add: separate_def)
  show ?case
  proof (cases t)
    case Nil
    with less.prems assms show ?thesis by (simp add: match_literal_def)
  next
    case (Cons c cs)
    show ?thesis
    proof (cases "prefix p t")
      case True
      let ?t' = "drop (length p) t"
      from True less.prems have "sublist q (r @ ?sub ?t')"
        by (simp add: sub_literal_match [OF assms(1)] del: re_sub.simps)
      then have "(\<exists>j<length r. prefix q (drop j r @ ?sub ?t')) \<or> sublist q (?sub ?t')"
        by (rule sublist_append_cases)
      moreover have "\<not> (\<exists>j<length r. prefix q (drop j r @ ?sub ?t'))"
      proof
        assume "\<exists>j<length r. prefix q (drop j r @ ?sub ?t')"
        then obtain j where j: "j < length r" "prefix q (drop j r @ ?sub ?t')" by blast
        from j(2) have "prefix q (drop j r) \<or> prefix (drop j r) q"
          by (rule prefix_append_compat)
        with j(1) have "begins_inside q r" unfolding begins_inside_iff by blast
        with nq show False by simp
      qed
      ultimately have "sublist q (?sub ?t')" by blast
      moreover have "length ?t' < length t" using Cons assms(1) by simp
      ultimately obtain i where i: "i < length ?t'" "prefix q (drop i ?t')" "\<not> prefix p (drop i ?t')"
        using less.hyps [of ?t'] by blast
      then have "i + length p < length t \<and> prefix q (drop (i + length p) t)
                 \<and> \<not> prefix p (drop (i + length p) t)"
        by (simp add: add.commute)
      then show ?thesis by blast
    next
      case False
      with Cons less.prems have "sublist q (c # ?sub cs)"
        by (simp add: sub_literal_skip del: re_sub.simps)
      then have "prefix q (c # ?sub cs) \<or> sublist q (?sub cs)"
        by (simp add: sublist_Cons_right)
      then show ?thesis
      proof
        assume "prefix q (c # ?sub cs)"
        with False Cons have "prefix (drop 0 q) (?sub t)" by (simp add: sub_literal_skip del: re_sub.simps)
        then have "prefix (drop 0 q) t" by (rule prefix_sub_literal [OF assms(1) nr])
        with False Cons have "0 < length t \<and> prefix q (drop 0 t) \<and> \<not> prefix p (drop 0 t)" by simp
        then show ?thesis by blast
      next
        assume "sublist q (?sub cs)"
        then obtain i where "i < length cs" "prefix q (drop i cs)" "\<not> prefix p (drop i cs)"
          using less.hyps [of cs] Cons by auto
        with Cons have "Suc i < length t \<and> prefix q (drop (Suc i) t) \<and> \<not> prefix p (drop (Suc i) t)"
          by simp
        then show ?thesis by blast
      qed
    qed
  qed
qed

lemma sub_literal_removes:
  assumes "p \<noteq> []" "separate r p"
  shows "\<not> sublist p (re_sub (match_literal p) (\<lambda>_. r) t)"
  using sublist_sub_literal [OF assms(1) assms(1) assms(2), of t] by blast

lemma sub_literal_idem:
  assumes "p \<noteq> []" "separate r p"
  shows "re_sub (match_literal p) (\<lambda>_. r) (re_sub (match_literal p) (\<lambda>_. r) t)
         = re_sub (match_literal p) (\<lambda>_. r) t"
  by (rule re_sub_no_match) (simp add: has_match_literal sub_literal_removes [OF assms])

lemma sub_literal_keeps_absent:
  assumes "p \<noteq> []" "q \<noteq> []" "separate r q" "\<not> sublist q t"
  shows "\<not> sublist q (re_sub (match_literal p) (\<lambda>_. r) t)"
proof
  assume "sublist q (re_sub (match_literal p) (\<lambda>_. r) t)"
  then obtain i where "prefix q (drop i t)"
    using sublist_sub_literal [OF assms(1-3)] by blast
  then have "sublist q t" by (blast intro: sublist_of_drop)
  with assms(4) show False by simp
qed

subsection \<open>Inserting behind a match\<close>

lemma has_match_here: "m s = Some n \<Longrightarrow> has_match m s"
  by (cases s) simp_all

lemma has_match_Cons: "has_match m cs \<Longrightarrow> has_match m (c # cs)"
  by (simp split: option.splits)

lemma prefix_insert:
  assumes "proper m" "\<not> begins_inside ins q"
  shows "prefix (drop k q) (re_sub m (\<lambda>g. g @ ins) t) \<Longrightarrow> prefix (drop k q) t"
proof (induction t arbitrary: k)
  case Nil
  then show ?case by (simp add: re_sub_Nil [OF assms(1)] del: re_sub.simps)
next
  case (Cons c cs)
  let ?sub = "re_sub m (\<lambda>g. g @ ins)"
  show ?case
  proof (cases "drop k q")
    case Nil
    then show ?thesis by simp
  next
    case q: (Cons d q')
    then have k: "k < length q" by (cases "k < length q") auto
    show ?thesis
    proof (cases "m (c # cs)")
      case None
      with Cons.prems have pre: "prefix (drop k q) (c # ?sub cs)"
        by simp
      have q': "q' = drop (Suc k) q"
        using q by (metis drop_Suc list.sel(3) tl_drop)
      from pre q have "d = c" "prefix q' (?sub cs)"
        by simp_all
      with Cons.IH [of "Suc k"] q' have "prefix q' cs" by simp
      with \<open>d = c\<close> q show ?thesis by simp
    next
      case (Some n)
      let ?g = "take n (c # cs)"
      from properD [OF assms(1) Some] have n: "0 < n" "n \<le> length (c # cs)" by simp_all
      then have lg: "length ?g = n" by simp
      from Cons.prems have "prefix (drop k q) (?g @ ins @ ?sub (drop n (c # cs)))"
        by (simp add: re_sub_Some [OF assms(1) Some] del: re_sub.simps)
      then consider "prefix (drop k q) ?g"
        | us where "drop k q = ?g @ us" "prefix us (ins @ ?sub (drop n (c # cs)))"
        by (auto simp: prefix_append)
      then show ?thesis
      proof cases
        case 1
        have "prefix ?g (c # cs)" by (rule take_is_prefix)
        with 1 show ?thesis by (rule prefix_order.trans)
      next
        case 2
        show ?thesis
        proof (cases us)
          case Nil
          with 2 have "drop k q = ?g" by simp
          then show ?thesis by (simp add: take_is_prefix)
        next
          case (Cons u us')
          from 2(1) have "drop n (drop k q) = us" using lg
            by (metis append_eq_conv_conj)
          then have us: "us = drop (n + k) q" by simp
          with Cons have "n + k < length q" by (cases "n + k < length q") auto
          moreover from 2(2) have "prefix us ins \<or> prefix ins us"
            by (rule prefix_append_compat)
          ultimately have "begins_inside ins q"
            unfolding begins_inside_iff us by blast
          with assms(2) show ?thesis by simp
        qed
      qed
    qed
  qed
qed

lemma sublist_insert:
  assumes "proper m" "separate ins q"
  shows "sublist q (re_sub m (\<lambda>g. g @ ins) t) \<Longrightarrow> sublist q t"
proof (induction "length t" arbitrary: t rule: less_induct)
  case less
  let ?sub = "re_sub m (\<lambda>g. g @ ins)"
  from assms(2) have nq: "\<not> begins_inside q ins" and ni: "\<not> begins_inside ins q"
    by (simp_all add: separate_def)
  show ?case
  proof (cases t)
    case Nil
    with less.prems show ?thesis by (simp add: re_sub_Nil [OF assms(1)] del: re_sub.simps)
  next
    case (Cons c cs)
    show ?thesis
    proof (cases "m t")
      case None
      with Cons less.prems have "sublist q (c # ?sub cs)" by simp
      then have "prefix q (c # ?sub cs) \<or> sublist q (?sub cs)"
        by (simp add: sublist_Cons_right)
      then show ?thesis
      proof
        assume "prefix q (c # ?sub cs)"
        with None Cons have "prefix (drop 0 q) (?sub t)" by simp
        then have "prefix (drop 0 q) t" by (rule prefix_insert [OF assms(1) ni])
        then show ?thesis by simp
      next
        assume "sublist q (?sub cs)"
        then have "sublist q cs" using less.hyps [of cs] Cons by simp
        with Cons show ?thesis by (simp add: sublist_Cons_right)
      qed
    next
      case (Some n)
      let ?g = "take n t" and ?X = "?sub (drop n t)"
      from properD [OF assms(1) Some] have n: "0 < n" "n \<le> length t" by simp_all
      from less.prems have "sublist q (?g @ ins @ ?X)"
        by (simp add: re_sub_Some [OF assms(1) Some] del: re_sub.simps)
      then have "(\<exists>j<length ?g. prefix q (drop j ?g @ ins @ ?X)) \<or> sublist q (ins @ ?X)"
        by (rule sublist_append_cases)
      then show ?thesis
      proof
        assume "\<exists>j<length ?g. prefix q (drop j ?g @ ins @ ?X)"
        then obtain j where j: "j < length ?g" "prefix q (drop j ?g @ ins @ ?X)" by blast
        from j(2) consider "prefix q (drop j ?g)"
          | us where "q = drop j ?g @ us" "prefix us (ins @ ?X)"
          by (auto simp: prefix_append)
        then show ?thesis
        proof cases
          case 1
          then have "sublist q (drop j ?g)" by simp
          then show ?thesis by (blast intro: sublist_of_drop sublist_of_take)
        next
          case 2
          show ?thesis
          proof (cases us)
            case Nil
            with 2 have "sublist q (drop j ?g)" by simp
            then show ?thesis by (blast intro: sublist_of_drop sublist_of_take)
          next
            case (Cons u us')
            let ?l = "length (drop j ?g)"
            from j(1) have l: "0 < ?l" by simp
            from 2(1) have us: "us = drop ?l q" by (metis append_eq_conv_conj)
            with Cons have "?l < length q" by (cases "?l < length q") auto
            moreover from 2(2) have "prefix us ins \<or> prefix ins us"
              by (rule prefix_append_compat)
            ultimately have "begins_inside ins q"
              unfolding begins_inside_iff us by blast
            with ni show ?thesis by simp
          qed
        qed
      next
        assume "sublist q (ins @ ?X)"
        then have "(\<exists>j<length ins. prefix q (drop j ins @ ?X)) \<or> sublist q ?X"
          by (rule sublist_append_cases)
        moreover have "\<not> (\<exists>j<length ins. prefix q (drop j ins @ ?X))"
        proof
          assume "\<exists>j<length ins. prefix q (drop j ins @ ?X)"
          then obtain j where j: "j < length ins" "prefix q (drop j ins @ ?X)" by blast
          from j(2) have "prefix q (drop j ins) \<or> prefix (drop j ins) q"
            by (rule prefix_append_compat)
          with j(1) have "begins_inside q ins" unfolding begins_inside_iff by blast
          with nq show False by simp
        qed
        ultimately have "sublist q ?X" by blast
        moreover have "length (drop n t) < length t" using n Cons by simp
        ultimately have "sublist q (drop n t)" using less.hyps [of "drop n t"] by blast
        then show ?thesis by (rule sublist_of_drop)
      qed
    qed
  qed
qed

lemma length_insert:
  assumes "proper m"
  shows "length t \<le> length (re_sub m (\<lambda>g. g @ ins) t)"
proof (induction "length t" arbitrary: t rule: less_induct)
  case less
  show ?case
  proof (cases t)
    case Nil
    then show ?thesis by simp
  next
    case (Cons c cs)
    show ?thesis
    proof (cases "m t")
      case None
      with Cons less.hyps [of cs] show ?thesis by simp
    next
      case (Some n)
      from properD [OF assms Some] have n: "0 < n" "n \<le> length t" by simp_all
      then have "length (drop n t) < length t" using Cons by simp
      from less.hyps [OF this] n show ?thesis
        by (simp add: re_sub_Some [OF assms Some] del: re_sub.simps)
    qed
  qed
qed

lemma length_insert_grows:
  assumes "proper m" "ins \<noteq> []"
  shows "has_match m t \<Longrightarrow> length t < length (re_sub m (\<lambda>g. g @ ins) t)"
proof (induction t)
  case Nil
  then show ?case by (simp add: proper_Nil [OF assms(1)])
next
  case (Cons c cs)
  show ?case
  proof (cases "m (c # cs)")
    case None
    with Cons show ?thesis by simp
  next
    case (Some n)
    from properD [OF assms(1) Some] have n: "0 < n" "n \<le> length (c # cs)" by simp_all
    have "length (drop n (c # cs)) \<le> length (re_sub m (\<lambda>g. g @ ins) (drop n (c # cs)))"
      by (rule length_insert [OF assms(1)])
    moreover have "0 < length ins" using assms(2) by simp
    moreover have "length (re_sub m (\<lambda>g. g @ ins) (c # cs))
                   = n + (length ins + length (re_sub m (\<lambda>g. g @ ins) (drop n (c # cs))))"
      using n by (simp add: re_sub_Some [OF assms(1) Some] del: re_sub.simps)
    moreover have "length (drop n (c # cs)) = length (c # cs) - n" by (rule length_drop)
    ultimately show ?thesis using n by linarith
  qed
qed

lemma re_sub_first_match:
  assumes "proper m" "m s = Some n"
  shows "\<forall>i<length u. m (drop i (u @ s)) = None \<Longrightarrow>
         re_sub m f (u @ s) = u @ f (take n s) @ re_sub m f (drop n s)"
proof (induction u)
  case Nil
  show ?case by (simp add: re_sub_Some [OF assms] del: re_sub.simps)
next
  case (Cons c u)
  from Cons.prems have "m (drop 0 ((c # u) @ s)) = None" by blast
  then have here: "m (c # u @ s) = None" by simp
  have "\<forall>i<length u. m (drop i (u @ s)) = None"
  proof (intro allI impI)
    fix i assume "i < length u"
    then have "Suc i < length (c # u)" by simp
    with Cons.prems have "m (drop (Suc i) ((c # u) @ s)) = None" by blast
    then show "m (drop i (u @ s)) = None" by simp
  qed
  with Cons.IH here show ?case by simp
qed

subsection \<open>The description pattern\<close>

lemma match_description_SomeD:
  assumes "match_description s = Some n"
  shows "\<exists>q body q' rest.
           s = ''description: '' @ q # body @ q' # CHR '','' # rest \<and>
           is_quote q \<and> is_quote q' \<and> body \<noteq> [] \<and> (\<forall>c\<in>set body. \<not> is_quote c) \<and>
           n = 16 + length body"
proof -
  let ?P = "\<lambda>c. \<not> is_quote c"
  from assms have pre: "prefix ''description: '' s"
    by (auto simp: match_description_def split: if_splits)
  then obtain zs where s: "s = ''description: '' @ zs" by (auto simp: prefix_def)
  then have d: "drop 13 s = zs" by simp
  from assms pre d obtain q rest0 where zs: "zs = q # rest0"
    by (cases zs) (auto simp: match_description_def)
  from assms pre d zs have q: "is_quote q"
    by (auto simp: match_description_def split: if_splits)
  from assms pre d zs q have body: "takeWhile ?P rest0 \<noteq> []"
    by (auto simp: match_description_def Let_def split: if_splits)
  from assms pre d zs q body obtain q' rest where
    dw: "dropWhile ?P rest0 = q' # CHR '','' # rest" and n: "n = 16 + length (takeWhile ?P rest0)"
    by (auto simp: match_description_def Let_def split: if_splits list.splits)
  have "\<not> ?P (hd (dropWhile ?P rest0))"
    by (rule hd_dropWhile) (simp add: dw)
  with dw have q': "is_quote q'" by simp
  have "rest0 = takeWhile ?P rest0 @ dropWhile ?P rest0" by simp
  with dw have "rest0 = takeWhile ?P rest0 @ q' # CHR '','' # rest" by simp
  with s zs have "s = ''description: '' @ q # takeWhile ?P rest0 @ q' # CHR '','' # rest"
    by simp
  moreover have "\<forall>c\<in>set (takeWhile ?P rest0). \<not> is_quote c"
    by (auto dest: set_takeWhileD)
  ultimately show ?thesis using q q' body n by blast
qed

lemma match_description_SomeI:
  assumes "is_quote q" "is_quote q'" "body \<noteq> []" "\<forall>c\<in>set body. \<not> is_quote c"
  shows "match_description (''description: '' @ q # body @ q' # CHR '','' # rest)
         = Some (16 + length body)"
proof -
  let ?P = "\<lambda>c. \<not> is_quote c"
  have "takeWhile ?P (body @ q' # CHR '','' # rest) = body"
    using assms(2,4) by simp
  moreover have "dropWhile ?P (body @ q' # CHR '','' # rest) = q' # CHR '','' # rest"
    using assms(2,4) by simp
  ultimately show ?thesis
    using assms(1,3) by (simp add: match_description_def)
qed

lemma proper_description: "proper match_description"
  unfolding proper_def
proof (intro allI impI)
  fix s n assume "match_description s = Some n"
  from match_description_SomeD [OF this] show "0 < n \<and> n \<le> length s" by auto
qed

lemma match_description_stable:
  assumes "match_description s = Some n"
  shows "match_description (take n s @ y) = Some n"
proof -
  from match_description_SomeD [OF assms] obtain q body q' rest where
    s: "s = ''description: '' @ q # body @ q' # CHR '','' # rest" and
    c: "is_quote q" "is_quote q'" "body \<noteq> []" "\<forall>c\<in>set body. \<not> is_quote c" and
    n: "n = 16 + length body" by blast
  let ?g = "''description: '' @ q # body @ [q', CHR '','']"
  have "s = ?g @ rest" unfolding s by simp
  moreover have "length ?g = n" unfolding n by simp
  ultimately have "take n s = ?g" by (metis append_eq_conv_conj)
  then have "take n s @ y = ''description: '' @ q # body @ q' # CHR '','' # y" by simp
  with match_description_SomeI [OF c, of y] n show ?thesis by simp
qed

lemma has_match_add_category:
  "has_match match_description t \<Longrightarrow> has_match match_description (add_category c t)"
proof (induction t)
  case Nil
  then show ?case by (simp add: proper_Nil [OF proper_description])
next
  case (Cons a t)
  show ?case
  proof (cases "match_description (a # t)")
    case None
    with Cons have "has_match match_description (add_category c t)" by simp
    then have "has_match match_description (a # add_category c t)" by (rule has_match_Cons)
    with None show ?thesis by (simp add: add_category_def)
  next
    case (Some n)
    have "match_description (take n (a # t) @ category_line c @ add_category c (drop n (a # t))) = Some n"
      by (rule match_description_stable [OF Some])
    then have "has_match match_description
                 (take n (a # t) @ category_line c @ add_category c (drop n (a # t)))"
      by (rule has_match_here)
    then show ?thesis
      unfolding add_category_def
      by (simp add: re_sub_Some [OF proper_description Some] del: re_sub.simps)
  qed
qed

lemma category_line_nonempty: "category_line c \<noteq> []"
  by (simp add: category_line_def)

lemma add_category_changes:
  "has_match match_description t \<longleftrightarrow> add_category c t \<noteq> t"
proof
  assume "has_match match_description t"
  then have "length t < length (add_category c t)"
    unfolding add_category_def
    by (rule length_insert_grows [OF proper_description category_line_nonempty])
  then show "add_category c t \<noteq> t" by auto
next
  assume "add_category c t \<noteq> t"
  then show "has_match match_description t"
    unfolding add_category_def using re_sub_no_match by blast
qed

section \<open>The patterns and replacements of the script\<close>

text \<open>
  No replacement of the script can overlap an occurrence of one of the three literal
  patterns; each fact is decided by evaluation.
\<close>

lemma separate_import: "separate import_new import_old"
  by code_simp

lemma separate_metadata: "separate metadata_new metadata_old"
  by code_simp

lemma separate_execute: "separate execute_new execute_old"
  by code_simp

lemma separate_metadata_import: "separate metadata_new import_old"
  by code_simp

lemma separate_execute_import: "separate execute_new import_old"
  by code_simp

lemma separate_execute_metadata: "separate execute_new metadata_old"
  by code_simp

lemma separate_category_import:
  "separate (category_line ''Project Management'') import_old"
  "separate (category_line ''Database'') import_old"
  "separate (category_line ''Documentation'') import_old"
  "separate (category_line ''Development'') import_old"
  by code_simp+

lemma separate_category_metadata:
  "separate (category_line ''Project Management'') metadata_old"
  "separate (category_line ''Database'') metadata_old"
  "separate (category_line ''Documentation'') metadata_old"
  "separate (category_line ''Development'') metadata_old"
  by code_simp+

lemma separate_category_execute:
  "separate (category_line ''Project Management'') execute_old"
  "separate (category_line ''Database'') execute_old"
  "separate (category_line ''Documentation'') execute_old"
  "separate (category_line ''Development'') execute_old"
  by code_simp+

lemma categories_get_cases:
  "categories_get tool ''Development'' \<in>
     {''Project Management'', ''Database'', ''Documentation'', ''Development''}"
  by (simp add: categories_get_def categories_def)

lemma old_nonempty: "import_old \<noteq> []" "metadata_old \<noteq> []" "execute_old \<noteq> []"
  by (simp_all add: import_old_def metadata_old_def execute_old_def)

lemma fix_imports_removes: "\<not> sublist import_old (fix_imports t)"
  unfolding fix_imports_def
  by (rule sub_literal_removes [OF old_nonempty(1) separate_import])

lemma fix_metadata_removes: "\<not> sublist metadata_old (fix_metadata t)"
  unfolding fix_metadata_def
  by (rule sub_literal_removes [OF old_nonempty(2) separate_metadata])

lemma fix_execute_removes: "\<not> sublist execute_old (fix_execute t)"
  unfolding fix_execute_def
  by (rule sub_literal_removes [OF old_nonempty(3) separate_execute])

lemma fix_imports_absent: "\<not> sublist import_old t \<Longrightarrow> fix_imports t = t"
  unfolding fix_imports_def by (rule re_sub_no_match) (simp add: has_match_literal)

lemma fix_metadata_absent: "\<not> sublist metadata_old t \<Longrightarrow> fix_metadata t = t"
  unfolding fix_metadata_def by (rule re_sub_no_match) (simp add: has_match_literal)

lemma fix_execute_absent: "\<not> sublist execute_old t \<Longrightarrow> fix_execute t = t"
  unfolding fix_execute_def by (rule re_sub_no_match) (simp add: has_match_literal)

section \<open>Rule 1: the import\<close>

text \<open>
  Claim C6. Rule 1 changes a text only where the two-symbol import occurs; its output
  never contains the two-symbol import, so a second application changes nothing; and
  the three-symbol import alone is left as it is.
\<close>

theorem fix_imports_idempotent:
  "(fix_imports t \<noteq> t \<longrightarrow> sublist import_old t) \<and>
   \<not> sublist import_old (fix_imports t) \<and>
   fix_imports (fix_imports t) = fix_imports t \<and>
   fix_imports import_new = import_new"
proof -
  have "\<not> sublist import_old import_new" by code_simp
  then have "fix_imports import_new = import_new" by (rule fix_imports_absent)
  moreover have "fix_imports (fix_imports t) = fix_imports t"
    by (rule fix_imports_absent) (rule fix_imports_removes)
  ultimately show ?thesis
    using fix_imports_absent [of t] fix_imports_removes [of t] by blast
qed

theorem fix_imports_idempotent_witness:
  "fix_imports (import_old @ '' 'x';'') \<noteq> import_old @ '' 'x';'' \<and>
   sublist import_old (import_old @ '' 'x';'') \<and>
   fix_imports (fix_imports (import_old @ '' 'x';'')) = fix_imports (import_old @ '' 'x';'')"
proof -
  have "fix_imports (import_old @ '' 'x';'') \<noteq> import_old @ '' 'x';''" by code_simp
  with fix_imports_idempotent [of "import_old @ '' 'x';''"] show ?thesis by blast
qed

section \<open>Rule 4: the signature of execute\<close>

text \<open>
  Claim C7. Rule 4 changes a text only where the one-parameter signature occurs; its
  output never contains that signature, so a second application changes nothing; and
  the two-parameter signature alone is left as it is.
\<close>

theorem fix_execute_idempotent:
  "(fix_execute t \<noteq> t \<longrightarrow> sublist execute_old t) \<and>
   \<not> sublist execute_old (fix_execute t) \<and>
   fix_execute (fix_execute t) = fix_execute t \<and>
   fix_execute execute_new = execute_new"
proof -
  have "\<not> sublist execute_old execute_new" by code_simp
  then have "fix_execute execute_new = execute_new" by (rule fix_execute_absent)
  moreover have "fix_execute (fix_execute t) = fix_execute t"
    by (rule fix_execute_absent) (rule fix_execute_removes)
  ultimately show ?thesis
    using fix_execute_absent [of t] fix_execute_removes [of t] by blast
qed

theorem fix_execute_idempotent_witness:
  "fix_execute (execute_old @ '' {}'') \<noteq> execute_old @ '' {}'' \<and>
   sublist execute_old (execute_old @ '' {}'') \<and>
   fix_execute (fix_execute (execute_old @ '' {}'')) = fix_execute (execute_old @ '' {}'')"
proof -
  have "fix_execute (execute_old @ '' {}'') \<noteq> execute_old @ '' {}''" by code_simp
  with fix_execute_idempotent [of "execute_old @ '' {}''"] show ?thesis by blast
qed

section \<open>The whole engine\<close>

lemma fix_content_unfold:
  "fix_content tool t =
     fix_execute (add_category (categories_get tool ''Development'') (fix_metadata (fix_imports t)))"
  by (simp add: fix_content_def)

lemma separate_category:
  "separate (category_line (categories_get tool ''Development'')) import_old"
  "separate (category_line (categories_get tool ''Development'')) metadata_old"
  "separate (category_line (categories_get tool ''Development'')) execute_old"
  using categories_get_cases [of tool]
  by (auto simp: separate_category_import separate_category_metadata separate_category_execute)

lemma add_category_keeps_absent:
  assumes "separate (category_line c) q" "\<not> sublist q t"
  shows "\<not> sublist q (add_category c t)"
  using sublist_insert [OF proper_description assms(1), of t] assms(2)
  unfolding add_category_def by blast

lemma fix_content_no_import: "\<not> sublist import_old (fix_content tool t)"
proof -
  have "\<not> sublist import_old (fix_imports t)" by (rule fix_imports_removes)
  then have "\<not> sublist import_old (fix_metadata (fix_imports t))"
    unfolding fix_metadata_def
    by (rule sub_literal_keeps_absent [OF old_nonempty(2) old_nonempty(1) separate_metadata_import])
  then have "\<not> sublist import_old
      (add_category (categories_get tool ''Development'') (fix_metadata (fix_imports t)))"
    by (rule add_category_keeps_absent [OF separate_category(1)])
  then show ?thesis
    unfolding fix_content_unfold fix_execute_def
    by (rule sub_literal_keeps_absent [OF old_nonempty(3) old_nonempty(1) separate_execute_import])
qed

lemma fix_content_no_metadata: "\<not> sublist metadata_old (fix_content tool t)"
proof -
  have "\<not> sublist metadata_old (fix_metadata (fix_imports t))" by (rule fix_metadata_removes)
  then have "\<not> sublist metadata_old
      (add_category (categories_get tool ''Development'') (fix_metadata (fix_imports t)))"
    by (rule add_category_keeps_absent [OF separate_category(2)])
  then show ?thesis
    unfolding fix_content_unfold fix_execute_def
    by (rule sub_literal_keeps_absent [OF old_nonempty(3) old_nonempty(2) separate_execute_metadata])
qed

lemma fix_content_no_execute: "\<not> sublist execute_old (fix_content tool t)"
  unfolding fix_content_unfold by (rule fix_execute_removes)

lemma fix_content_again:
  "fix_content tool (fix_content tool t)
   = add_category (categories_get tool ''Development'') (fix_content tool t)"
proof -
  let ?c = "categories_get tool ''Development''" and ?t = "fix_content tool t"
  have 1: "fix_imports ?t = ?t" by (rule fix_imports_absent) (rule fix_content_no_import)
  have 2: "fix_metadata ?t = ?t" by (rule fix_metadata_absent) (rule fix_content_no_metadata)
  have "\<not> sublist execute_old (add_category ?c ?t)"
    by (rule add_category_keeps_absent [OF separate_category(3) fix_content_no_execute])
  then have 3: "fix_execute (add_category ?c ?t) = add_category ?c ?t"
    by (rule fix_execute_absent)
  show ?thesis
    by (subst fix_content_unfold) (simp only: 1 2 3)
qed

text \<open>
  Claim C1, as the code has it. A second application of the engine finds nothing to do
  for rules 1, 2 and 4 and amounts to rule 3 applied to the output once more; the engine
  is therefore idempotent on a text exactly when its output holds no description field
  that rule 3 matches.
\<close>

theorem fix_content_twice:
  "fix_content tool (fix_content tool t)
     = add_category (categories_get tool ''Development'') (fix_content tool t) \<and>
   (fix_content tool (fix_content tool t) = fix_content tool t)
     = (\<not> has_match match_description (fix_content tool t))"
  using fix_content_again [of tool t]
    add_category_changes [of "fix_content tool t" "categories_get tool ''Development''"]
  by auto

theorem fix_content_twice_witness:
  "\<not> has_match match_description (fix_content ''DatabaseSchemaTool.ts'' plain_module) \<and>
   fix_content ''DatabaseSchemaTool.ts'' (fix_content ''DatabaseSchemaTool.ts'' plain_module)
     = fix_content ''DatabaseSchemaTool.ts'' plain_module"
proof -
  have "\<not> has_match match_description (fix_content ''DatabaseSchemaTool.ts'' plain_module)"
    by code_simp
  with fix_content_twice [of "''DatabaseSchemaTool.ts''" plain_module] show ?thesis by blast
qed

text \<open>
  Claim C1 fails on the legacy module of the specification: the second application of
  the engine adds a second category line, so it does not return the output of the first.
\<close>

theorem fix_content_not_idempotent:
  "fix_content ''DatabaseSchemaTool.ts'' (fix_content ''DatabaseSchemaTool.ts'' legacy_module)
   \<noteq> fix_content ''DatabaseSchemaTool.ts'' legacy_module"
  by code_simp

section \<open>Rule 3: the category\<close>

lemma ex_le_Suc: "(\<exists>i\<le>Suc n. P i) \<longleftrightarrow> P 0 \<or> (\<exists>i\<le>n. P (Suc i))"
proof
  assume "\<exists>i\<le>Suc n. P i"
  then obtain i where "i \<le> Suc n" "P i" by blast
  then show "P 0 \<or> (\<exists>i\<le>n. P (Suc i))" by (cases i) auto
next
  assume "P 0 \<or> (\<exists>i\<le>n. P (Suc i))"
  then show "\<exists>i\<le>Suc n. P i" by auto
qed

lemma all_less_Suc: "(\<forall>i<Suc n. P i) \<longleftrightarrow> P 0 \<and> (\<forall>i<n. P (Suc i))"
  by (auto simp: less_Suc_eq_0_disj)

lemma all_drop_Cons:
  "(\<forall>i<length (c # cs). A (drop i (c # cs))) \<longleftrightarrow> A (c # cs) \<and> (\<forall>i<length cs. A (drop i cs))"
  by (simp add: all_less_Suc)

lemma has_match_iff: "has_match m t \<longleftrightarrow> (\<exists>i\<le>length t. m (drop i t) \<noteq> None)"
proof (induction t)
  case Nil
  show ?case by (auto split: option.splits)
next
  case (Cons c cs)
  have "(\<exists>i\<le>length (c # cs). m (drop i (c # cs)) \<noteq> None)
        \<longleftrightarrow> m (c # cs) \<noteq> None \<or> (\<exists>i\<le>length cs. m (drop i cs) \<noteq> None)"
    using ex_le_Suc [of "length cs" "\<lambda>i. m (drop i (c # cs)) \<noteq> None"] by simp
  with Cons show ?case by (auto split: option.splits)
qed

lemma only_empty_descriptions_iff:
  "only_empty_descriptions t \<longleftrightarrow>
     (\<forall>i<length t. prefix ''description: '' (drop i t) \<longrightarrow>
        prefix (''description: '' @ [CHR 0x27, CHR 0x27, CHR '','']) (drop i t))"
proof (induction t)
  case Nil
  show ?case by simp
next
  case (Cons c cs)
  let ?A = "\<lambda>s. prefix ''description: '' s \<longrightarrow>
        prefix (''description: '' @ [CHR 0x27, CHR 0x27, CHR '','']) s"
  have 1: "only_empty_descriptions (c # cs) \<longleftrightarrow> ?A (c # cs) \<and> only_empty_descriptions cs"
    by (auto simp only: only_empty_descriptions.simps split: if_splits)
  have 2: "only_empty_descriptions cs \<longleftrightarrow> (\<forall>i<length cs. ?A (drop i cs))"
    by (rule Cons.IH)
  have 3: "(\<forall>i<length (c # cs). ?A (drop i (c # cs)))
           \<longleftrightarrow> ?A (c # cs) \<and> (\<forall>i<length cs. ?A (drop i cs))"
    by (rule all_drop_Cons)
  show ?case by (simp only: 1 2 3)
qed

lemma match_description_empty_value:
  assumes "prefix (''description: '' @ [CHR 0x27, CHR 0x27, CHR '','']) s"
  shows "match_description s = None"
proof -
  from assms obtain zs where "s = ''description: '' @ [CHR 0x27, CHR 0x27, CHR '',''] @ zs"
    by (auto simp: prefix_def)
  then show ?thesis by (simp add: match_description_def is_quote_def)
qed

lemma match_description_needs_name:
  "\<not> prefix ''description: '' s \<Longrightarrow> match_description s = None"
  by (simp add: match_description_def)

text \<open>
  Claim C9. When every description field of the text has the empty single-quoted value,
  rule 3 matches nowhere and returns the text as it is: no category line is added.
\<close>

theorem add_category_skips_empty_description:
  assumes "\<forall>i<length t. prefix ''description: '' (drop i t) \<longrightarrow>
             prefix (''description: '' @ [CHR 0x27, CHR 0x27, CHR '','']) (drop i t)"
  shows "\<not> has_match match_description t \<and>
         add_category (categories_get tool ''Development'') t = t"
proof -
  have "match_description (drop i t) = None" if "i \<le> length t" for i
  proof (cases "prefix ''description: '' (drop i t)")
    case True
    then have "i < length t" using that by (cases "i = length t") auto
    with assms True show ?thesis by (blast intro: match_description_empty_value)
  next
    case False
    then show ?thesis by (rule match_description_needs_name)
  qed
  then have "\<not> has_match match_description t" by (simp add: has_match_iff)
  then show ?thesis unfolding add_category_def by (simp add: re_sub_no_match)
qed

theorem add_category_skips_empty_description_witness:
  "only_empty_descriptions empty_description \<and>
   sublist (''description: '' @ [CHR 0x27, CHR 0x27, CHR '','']) empty_description \<and>
   add_category (categories_get ''DatabaseSchemaTool.ts'' ''Development'') empty_description
     = empty_description"
proof -
  have 1: "only_empty_descriptions empty_description" by code_simp
  have 2: "sublist (''description: '' @ [CHR 0x27, CHR 0x27, CHR '','']) empty_description"
    by code_simp
  from 1 add_category_skips_empty_description [of empty_description "''DatabaseSchemaTool.ts''"]
  have "add_category (categories_get ''DatabaseSchemaTool.ts'' ''Development'') empty_description
     = empty_description"
    unfolding only_empty_descriptions_iff by blast
  with 1 2 show ?thesis by blast
qed

text \<open>
  Claim C2 fails where a text has more than one description field: the script passes
  no count to \<^verbatim>\<open>re.sub\<close>, so a category line follows every match, here the
  description of the tool and the description of its parameter.
\<close>

theorem add_category_every_description:
  "add_category ''Database'' nested_descriptions = nested_descriptions_fixed \<and>
   add_category ''Database'' nested_descriptions \<noteq> nested_descriptions_once"
  by code_simp

text \<open>
  Claim C2, as the code has it. Up to and including the first match the text is copied,
  the category line follows the match at once, and the rest of the text is treated in the
  same way, so every match gets its line. Nothing looks for a category field: where
  rule 3 matches, it matches again in its own output, and a second application adds a
  further line.
\<close>

theorem add_category_after_each_match:
  "(list_all (\<lambda>i. match_description (drop i (u @ s)) = None) [0..<length u] \<and>
    match_description s = Some n \<longrightarrow>
      add_category c (u @ s) = u @ take n s @ category_line c @ add_category c (drop n s)) \<and>
   (has_match match_description t \<longrightarrow>
      has_match match_description (add_category c t) \<and>
      add_category c (add_category c t) \<noteq> add_category c t)"
proof -
  have "add_category c (u @ s) = u @ take n s @ category_line c @ add_category c (drop n s)"
    if a: "list_all (\<lambda>i. match_description (drop i (u @ s)) = None) [0..<length u]"
      and b: "match_description s = Some n"
  proof -
    from a have "\<forall>i<length u. match_description (drop i (u @ s)) = None"
      by (simp add: list_all_iff)
    from re_sub_first_match [OF proper_description b this]
    show ?thesis unfolding add_category_def by simp
  qed
  moreover have "has_match match_description (add_category c t) \<and>
      add_category c (add_category c t) \<noteq> add_category c t"
    if "has_match match_description t"
  proof -
    from that have "has_match match_description (add_category c t)"
      by (rule has_match_add_category)
    then show ?thesis using add_category_changes by blast
  qed
  ultimately show ?thesis by blast
qed

theorem add_category_after_each_match_witness:
  "list_all (\<lambda>i. match_description (drop i (''{ '' @ ''description: 'a', }'')) = None)
     [0..<length ''{ ''] \<and>
   match_description ''description: 'a', }'' = Some 17 \<and>
   add_category ''Database'' (''{ '' @ ''description: 'a', }'')
     = ''{ '' @ take 17 ''description: 'a', }'' @ category_line ''Database''
       @ add_category ''Database'' (drop 17 ''description: 'a', }'') \<and>
   has_match match_description (''{ '' @ ''description: 'a', }'') \<and>
   add_category ''Database'' (add_category ''Database'' (''{ '' @ ''description: 'a', }''))
     \<noteq> add_category ''Database'' (''{ '' @ ''description: 'a', }'')"
proof -
  have 1: "list_all (\<lambda>i. match_description (drop i (''{ '' @ ''description: 'a', }'')) = None)
     [0..<length ''{ '']" by code_simp
  have 2: "match_description ''description: 'a', }'' = Some 17" by code_simp
  have 3: "has_match match_description (''{ '' @ ''description: 'a', }'')" by code_simp
  from 1 2 3 add_category_after_each_match
    [of "''{ ''" "''description: 'a', }''" 17 "''Database''" "''{ '' @ ''description: 'a', }''"]
  show ?thesis by blast
qed

section \<open>Rules without a match\<close>

lemma has_match_description_iff:
  "has_match match_description t \<longleftrightarrow>
     (\<exists>u q body q' v. t = u @ ''description: '' @ q # body @ q' # CHR '','' # v \<and>
        is_quote q \<and> is_quote q' \<and> body \<noteq> [] \<and> (\<forall>c\<in>set body. \<not> is_quote c))"
proof
  assume "has_match match_description t"
  then obtain i n where "match_description (drop i t) = Some n"
    by (auto simp: has_match_iff)
  from match_description_SomeD [OF this] obtain q body q' rest where
    "drop i t = ''description: '' @ q # body @ q' # CHR '','' # rest"
    "is_quote q" "is_quote q'" "body \<noteq> []" "\<forall>c\<in>set body. \<not> is_quote c" by blast
  moreover have "t = take i t @ drop i t" by simp
  ultimately have "t = take i t @ ''description: '' @ q # body @ q' # CHR '','' # rest \<and>
        is_quote q \<and> is_quote q' \<and> body \<noteq> [] \<and> (\<forall>c\<in>set body. \<not> is_quote c)"
    by (metis (no_types))
  then show "\<exists>u q body q' v. t = u @ ''description: '' @ q # body @ q' # CHR '','' # v \<and>
        is_quote q \<and> is_quote q' \<and> body \<noteq> [] \<and> (\<forall>c\<in>set body. \<not> is_quote c)"
    by blast
next
  assume "\<exists>u q body q' v. t = u @ ''description: '' @ q # body @ q' # CHR '','' # v \<and>
        is_quote q \<and> is_quote q' \<and> body \<noteq> [] \<and> (\<forall>c\<in>set body. \<not> is_quote c)"
  then obtain u q body q' v where
    t: "t = u @ ''description: '' @ q # body @ q' # CHR '','' # v" and
    c: "is_quote q" "is_quote q'" "body \<noteq> []" "\<forall>c\<in>set body. \<not> is_quote c" by blast
  have "drop (length u) t = ''description: '' @ q # body @ q' # CHR '','' # v"
    unfolding t by simp
  with match_description_SomeI [OF c, of v]
  have "match_description (drop (length u) t) \<noteq> None" by simp
  moreover have "length u \<le> length t" unfolding t by simp
  ultimately show "has_match match_description t" unfolding has_match_iff by blast
qed

text \<open>
  Claim C8. A rule whose pattern occurs nowhere in the text returns the text as it is.
  For the three literal rules the pattern occurs when its text is a part of the input; for
  rule 3 it occurs when the matcher succeeds at some position, that is (by
  \<open>has_match_description_iff\<close>) when the input holds a description field with a quoted,
  non-empty value and a comma behind it.
\<close>

theorem rules_noop_without_trigger:
  "(\<not> sublist import_old t \<longrightarrow> fix_imports t = t) \<and>
   (\<not> sublist metadata_old t \<longrightarrow> fix_metadata t = t) \<and>
   (\<not> has_match match_description t \<longrightarrow>
      add_category (categories_get tool ''Development'') t = t) \<and>
   (\<not> sublist execute_old t \<longrightarrow> fix_execute t = t)"
proof -
  have "add_category (categories_get tool ''Development'') t = t"
    if "\<not> has_match match_description t"
    using that unfolding add_category_def by (rule re_sub_no_match)
  then show ?thesis
    using fix_imports_absent [of t] fix_metadata_absent [of t] fix_execute_absent [of t]
    by blast
qed

theorem rules_noop_without_trigger_witness:
  "\<not> sublist import_old ''class C { name: 'x' }'' \<and>
   fix_imports ''class C { name: 'x' }'' = ''class C { name: 'x' }'' \<and>
   \<not> sublist metadata_old ''class C { name: 'x' }'' \<and>
   fix_metadata ''class C { name: 'x' }'' = ''class C { name: 'x' }'' \<and>
   \<not> has_match match_description ''class C { name: 'x' }'' \<and>
   add_category (categories_get ''DatabaseSchemaTool.ts'' ''Development'') ''class C { name: 'x' }''
     = ''class C { name: 'x' }'' \<and>
   \<not> sublist execute_old ''class C { name: 'x' }'' \<and>
   fix_execute ''class C { name: 'x' }'' = ''class C { name: 'x' }''"
proof -
  have "\<not> sublist import_old ''class C { name: 'x' }''"
    "\<not> sublist metadata_old ''class C { name: 'x' }''"
    "\<not> has_match match_description ''class C { name: 'x' }''"
    "\<not> sublist execute_old ''class C { name: 'x' }''"
    by code_simp+
  with rules_noop_without_trigger [of "''class C { name: 'x' }''" "''DatabaseSchemaTool.ts''"]
  show ?thesis by blast
qed

section \<open>The category line in the output\<close>






text \<open>
  Claim C5 at the legacy module of the specification. The output holds the three-symbol
  import, the typed metadata declaration and the two-parameter signature; behind the
  description field it holds the category line with a backslash before each quote, and
  nowhere the field \<^verbatim>\<open>category: 'Database',\<close>.
\<close>

theorem legacy_module_output:
  "categories_get ''DatabaseSchemaTool.ts'' ''Development'' = ''Database'' \<and>
   fix_content ''DatabaseSchemaTool.ts'' legacy_module = legacy_module_fixed \<and>
   sublist import_new legacy_module_fixed \<and>
   sublist metadata_new legacy_module_fixed \<and>
   sublist execute_new legacy_module_fixed \<and>
   sublist (''description: 'd','' @ category_line ''Database'') legacy_module_fixed \<and>
   \<not> sublist ''category: 'Database','' legacy_module_fixed"
  by code_simp

section \<open>The run over the list of tools\<close>

lemma filepath_inject: "filepath a = filepath b \<longleftrightarrow> a = b"
  by (simp add: filepath_def)

lemma usable_Cons:
  "usable (t # ts) w \<longleftrightarrow>
     (case files w (filepath t) of
        None \<Rightarrow> True
      | Some n \<Rightarrow> (case contents n of None \<Rightarrow> False | Some _ \<Rightarrow> writable n)) \<and> usable ts w"
  by (simp add: usable_def)

lemma fix_tool_absent: "files w (filepath t) = None \<Longrightarrow> fix_tool t w = Inr w"
  by (simp add: fix_tool_def)

lemma fix_tool_present:
  assumes "files w (filepath t) = Some n" "contents n = Some c" "writable n"
  shows "fix_tool t w =
           Inr (w\<lparr>files := (files w)(filepath t \<mapsto> n\<lparr>contents := Some (fix_content t c)\<rparr>),
                  stdout := stdout w @ [''Fixed '' @ t]\<rparr>)"
  using assms by (simp add: fix_tool_def)

lemma usable_same_files:
  assumes "usable ts w" "files w' = files w"
  shows "usable ts w'"
  using assms by (simp add: usable_def)

lemma usable_update:
  assumes "usable ts w" "writable n"
  shows "usable ts (w\<lparr>files := (files w)(p \<mapsto> n\<lparr>contents := Some x\<rparr>), stdout := out\<rparr>)"
  using assms by (auto simp: usable_def list_all_iff split: option.splits)

text \<open>One round: what it prints, which paths exist afterwards, and what the files hold.\<close>

lemma fix_tool_step:
  assumes "usable (t # ts) w"
  shows "\<exists>w1. fix_tool t w = Inr w1 \<and> usable ts w1 \<and>
           stdout w1 = stdout w @ (if files w (filepath t) = None then [] else [''Fixed '' @ t]) \<and>
           (\<forall>p. (files w1 p = None) = (files w p = None)) \<and>
           (\<forall>u. text_at w1 u =
                  (if u = t then map_option (fix_content t) (text_at w t) else text_at w u))"
proof (cases "files w (filepath t)")
  case None
  with assms show ?thesis
    by (simp add: fix_tool_absent usable_Cons text_at_def)
next
  case (Some n)
  with assms obtain c where c: "contents n = Some c" and wr: "writable n" and ts: "usable ts w"
    by (auto simp: usable_Cons split: option.splits)
  let ?w1 = "w\<lparr>files := (files w)(filepath t \<mapsto> n\<lparr>contents := Some (fix_content t c)\<rparr>),
               stdout := stdout w @ [''Fixed '' @ t]\<rparr>"
  have "fix_tool t w = Inr ?w1" by (rule fix_tool_present [OF Some c wr])
  moreover have "usable ts ?w1" by (rule usable_update [OF ts wr])
  moreover have "stdout ?w1 = stdout w @ (if files w (filepath t) = None then [] else [''Fixed '' @ t])"
    using Some by simp
  moreover have "\<forall>p. (files ?w1 p = None) = (files w p = None)"
    using Some by simp
  moreover have "\<forall>u. text_at ?w1 u =
                  (if u = t then map_option (fix_content t) (text_at w t) else text_at w u)"
    using Some c by (simp add: text_at_def filepath_inject)
  ultimately show ?thesis by blast
qed

lemma for_tools_output:
  "usable ts w \<Longrightarrow>
   \<exists>w'. for_tools ts w = Inr w' \<and>
     stdout w' = stdout w @ map (\<lambda>t. ''Fixed '' @ t) (filter (\<lambda>t. files w (filepath t) \<noteq> None) ts) \<and>
     (\<forall>p. (files w' p = None) = (files w p = None))"
proof (induction ts arbitrary: w)
  case Nil
  then show ?case by simp
next
  case (Cons t ts)
  from fix_tool_step [OF Cons.prems] obtain w1 where
    w1: "fix_tool t w = Inr w1" "usable ts w1"
      "stdout w1 = stdout w @ (if files w (filepath t) = None then [] else [''Fixed '' @ t])"
      "\<forall>p. (files w1 p = None) = (files w p = None)" by blast
  from Cons.IH [OF w1(2)] obtain w' where
    w': "for_tools ts w1 = Inr w'"
      "stdout w' = stdout w1 @ map (\<lambda>t. ''Fixed '' @ t) (filter (\<lambda>t. files w1 (filepath t) \<noteq> None) ts)"
      "\<forall>p. (files w' p = None) = (files w1 p = None)" by blast
  from w1(4) have "(\<lambda>t. files w1 (filepath t) \<noteq> None) = (\<lambda>t. files w (filepath t) \<noteq> None)"
    by simp
  with w1 w' show ?case by simp
qed

lemma for_tools_text:
  "usable ts w \<Longrightarrow> distinct ts \<Longrightarrow> for_tools ts w = Inr w' \<Longrightarrow>
   text_at w' u = (if u \<in> set ts then map_option (fix_content u) (text_at w u) else text_at w u)"
proof (induction ts arbitrary: w)
  case Nil
  then show ?case by simp
next
  case (Cons t ts)
  from fix_tool_step [OF Cons.prems(1)] obtain w1 where
    w1: "fix_tool t w = Inr w1" "usable ts w1"
      "\<forall>u. text_at w1 u =
             (if u = t then map_option (fix_content t) (text_at w t) else text_at w u)" by blast
  from Cons.prems(3) w1(1) have run: "for_tools ts w1 = Inr w'" by simp
  from Cons.prems(2) have d: "distinct ts" "t \<notin> set ts" by simp_all
  from Cons.IH [OF w1(2) d(1) run]
  have "text_at w' u = (if u \<in> set ts then map_option (fix_content u) (text_at w1 u) else text_at w1 u)" .
  with w1(3) d(2) show ?case by auto
qed

lemma report_not_for_absent:
  assumes "files w (filepath t) = None"
  shows "''Fixed '' @ t \<notin> set (map (\<lambda>t. ''Fixed '' @ t) (filter (\<lambda>t. files w (filepath t) \<noteq> None) ts)
                              @ [''All tools fixed!''])"
  using assms by auto

lemma fix_tool_frame:
  "fix_tool t w = Inr w1 \<Longrightarrow> p \<noteq> filepath t \<Longrightarrow> files w1 p = files w p"
  by (auto simp: fix_tool_def split: option.splits if_splits)

lemma for_tools_frame:
  "for_tools ts w = Inr w' \<Longrightarrow> p \<notin> filepath ` set ts \<Longrightarrow> files w' p = files w p"
proof (induction ts arbitrary: w)
  case Nil
  then show ?case by simp
next
  case (Cons t ts)
  from Cons.prems(1) obtain w1 where w1: "fix_tool t w = Inr w1" "for_tools ts w1 = Inr w'"
    by (auto split: sum.splits)
  from Cons.prems(2) have p: "p \<noteq> filepath t" "p \<notin> filepath ` set ts" by auto
  from Cons.IH [OF w1(2) p(2)] fix_tool_frame [OF w1(1) p(1)] show ?case by simp
qed

lemma for_tools_count:
  "usable ts w \<Longrightarrow> for_tools ts w = Inr w' \<Longrightarrow>
   text_at w' u = map_option (fix_content u ^^ count_list ts u) (text_at w u)"
proof (induction ts arbitrary: w)
  case Nil
  then show ?case by (simp add: option.map_ident)
next
  case (Cons t ts)
  from fix_tool_step [OF Cons.prems(1)] obtain w1 where
    w1: "fix_tool t w = Inr w1" "usable ts w1"
      "\<forall>u. text_at w1 u =
             (if u = t then map_option (fix_content t) (text_at w t) else text_at w u)" by blast
  from Cons.prems(2) w1(1) have run: "for_tools ts w1 = Inr w'" by simp
  from Cons.IH [OF w1(2) run]
  have ih: "text_at w' u = map_option (fix_content u ^^ count_list ts u) (text_at w1 u)" .
  show ?case
  proof (cases "u = t")
    case True
    with w1(3) have "text_at w1 u = map_option (fix_content u) (text_at w u)" by simp
    with ih have "text_at w' u
        = map_option (fix_content u ^^ count_list ts u \<circ> fix_content u) (text_at w u)"
      by (simp add: option.map_comp)
    also have "fix_content u ^^ count_list ts u \<circ> fix_content u
               = fix_content u ^^ Suc (count_list ts u)"
      by (simp only: funpow_Suc_right)
    finally show ?thesis using True by simp
  next
    case False
    with w1(3) ih show ?thesis by simp
  qed
qed

text \<open>
  Claim C3. When every file of the list that exists can be read and written, the run
  ends normally for any list of tools. It prints one line for each tool whose file exists,
  in the order of the list, none for a tool whose file is missing, and the closing line
  last. A missing file stays missing. The file of a tool is rewritten by \<open>fix_content\<close>
  once for each time the list names the tool, so exactly once when the list has no
  repetitions, and a path that belongs to no tool of the list is left as it was.
\<close>

theorem script_skips_absent_files:
  assumes "usable ts w"
  shows "\<exists>w'. script ts w = Inr w' \<and>
           stdout w' = stdout w
             @ map (\<lambda>t. ''Fixed '' @ t) (filter (\<lambda>t. files w (filepath t) \<noteq> None) ts)
             @ [''All tools fixed!''] \<and>
           (\<forall>t. files w (filepath t) = None \<longrightarrow>
              ''Fixed '' @ t \<notin> set (map (\<lambda>t. ''Fixed '' @ t)
                                      (filter (\<lambda>t. files w (filepath t) \<noteq> None) ts)
                                    @ [''All tools fixed!'']) \<and>
              files w' (filepath t) = None) \<and>
           (\<forall>t. text_at w' t = map_option (fix_content t ^^ count_list ts t) (text_at w t)) \<and>
           (distinct ts \<longrightarrow>
              (\<forall>t\<in>set ts. text_at w' t = map_option (fix_content t) (text_at w t))) \<and>
           (\<forall>p. p \<notin> filepath ` set ts \<longrightarrow> files w' p = files w p)"
proof -
  from for_tools_output [OF assms] obtain w1 where
    w1: "for_tools ts w = Inr w1"
      "stdout w1 = stdout w @ map (\<lambda>t. ''Fixed '' @ t) (filter (\<lambda>t. files w (filepath t) \<noteq> None) ts)"
      "\<forall>p. (files w1 p = None) = (files w p = None)" by blast
  let ?w' = "w1\<lparr>stdout := stdout w1 @ [''All tools fixed!'']\<rparr>"
  have same: "text_at ?w' t = text_at w1 t" for t by (simp add: text_at_def)
  from w1(1) have 1: "script ts w = Inr ?w'" by (simp add: script_def)
  from w1(2) have 2: "stdout ?w' = stdout w
             @ map (\<lambda>t. ''Fixed '' @ t) (filter (\<lambda>t. files w (filepath t) \<noteq> None) ts)
             @ [''All tools fixed!'']" by simp
  from w1(3) have 3: "\<forall>t. files w (filepath t) = None \<longrightarrow> files ?w' (filepath t) = None"
    by simp
  have 4: "\<forall>t. text_at ?w' t = map_option (fix_content t ^^ count_list ts t) (text_at w t)"
    using for_tools_count [OF assms w1(1)] same by simp
  have 5: "distinct ts \<longrightarrow>
              (\<forall>t\<in>set ts. text_at ?w' t = map_option (fix_content t) (text_at w t))"
    using for_tools_text [OF assms _ w1(1)] same by simp
  have 6: "\<forall>p. p \<notin> filepath ` set ts \<longrightarrow> files ?w' p = files w p"
    using for_tools_frame [OF w1(1)] by simp
  from 1 2 3 4 5 6 show ?thesis using report_not_for_absent [of w _ ts] by blast
qed

theorem script_skips_absent_files_witness:
  "usable tools world_without_database \<and>
   files world_without_database (filepath ''DatabaseSchemaTool.ts'') = None \<and>
   (\<exists>w'. main world_without_database = Inr w' \<and>
      stdout w' = [''Fixed ProjectScaffoldingTool.ts'', ''Fixed APIDocumentationTool.ts'',
                   ''All tools fixed!''] \<and>
      files w' (filepath ''DatabaseSchemaTool.ts'') = None \<and>
      text_at w' ''ProjectScaffoldingTool.ts''
        = Some (fix_content ''ProjectScaffoldingTool.ts'' legacy_module) \<and>
      text_at w' ''APIDocumentationTool.ts''
        = Some (fix_content ''APIDocumentationTool.ts'' plain_module))"
proof -
  have u: "usable tools world_without_database" by code_simp
  have a: "files world_without_database (filepath ''DatabaseSchemaTool.ts'') = None" by code_simp
  have d: "distinct tools" by code_simp
  have m: "''ProjectScaffoldingTool.ts'' \<in> set tools" "''APIDocumentationTool.ts'' \<in> set tools"
    by code_simp+
  have t: "text_at world_without_database ''ProjectScaffoldingTool.ts'' = Some legacy_module"
    "text_at world_without_database ''APIDocumentationTool.ts'' = Some plain_module"
    by code_simp+
  have out: "stdout world_without_database
          @ map (\<lambda>t. ''Fixed '' @ t)
              (filter (\<lambda>t. files world_without_database (filepath t) \<noteq> None) tools)
          @ [''All tools fixed!'']
        = [''Fixed ProjectScaffoldingTool.ts'', ''Fixed APIDocumentationTool.ts'',
           ''All tools fixed!'']" by code_simp
  from script_skips_absent_files [OF u] obtain w' where
    w': "script tools world_without_database = Inr w'"
      "stdout w' = stdout world_without_database
          @ map (\<lambda>t. ''Fixed '' @ t)
              (filter (\<lambda>t. files world_without_database (filepath t) \<noteq> None) tools)
          @ [''All tools fixed!'']"
      "\<forall>t. files world_without_database (filepath t) = None \<longrightarrow> files w' (filepath t) = None"
      "distinct tools \<longrightarrow>
         (\<forall>t\<in>set tools. text_at w' t = map_option (fix_content t) (text_at world_without_database t))"
    by blast
  from w'(4) d m t have
    "text_at w' ''ProjectScaffoldingTool.ts''
        = Some (fix_content ''ProjectScaffoldingTool.ts'' legacy_module)"
    "text_at w' ''APIDocumentationTool.ts''
        = Some (fix_content ''APIDocumentationTool.ts'' plain_module)"
    by simp_all
  moreover from w'(3) a have "files w' (filepath ''DatabaseSchemaTool.ts'') = None" by blast
  moreover from w'(2) out have "stdout w' = [''Fixed ProjectScaffoldingTool.ts'',
      ''Fixed APIDocumentationTool.ts'', ''All tools fixed!'']" by simp
  ultimately show ?thesis using u a w'(1) unfolding main_def by blast
qed

text \<open>
  Claim C10. In a run over a list without repetitions, the text written back for a tool
  is \<open>fix_content\<close> of the tool and of the text its file held: two runs that start from
  file systems which agree on that text write the same text, whatever else the file
  systems hold and whatever was printed before.
\<close>

theorem written_text_determined:
  assumes "distinct ts" "tool \<in> set ts" "usable ts w1" "usable ts w2"
    and "text_at w1 tool = Some c" "text_at w2 tool = Some c"
  shows "\<exists>w1' w2'. script ts w1 = Inr w1' \<and> script ts w2 = Inr w2' \<and>
           text_at w1' tool = Some (fix_content tool c) \<and>
           text_at w2' tool = Some (fix_content tool c)"
proof -
  have run: "\<exists>w'. script ts w = Inr w' \<and> text_at w' tool = Some (fix_content tool c)"
    if "usable ts w" "text_at w tool = Some c" for w
  proof -
    from for_tools_output [OF that(1)] obtain v where v: "for_tools ts w = Inr v" by blast
    from for_tools_text [OF that(1) assms(1) v, of tool] assms(2) that(2)
    have "text_at v tool = Some (fix_content tool c)" by simp
    then have "text_at (v\<lparr>stdout := stdout v @ [''All tools fixed!'']\<rparr>) tool
               = Some (fix_content tool c)" by (simp add: text_at_def)
    with v show ?thesis by (simp add: script_def)
  qed
  from run [OF assms(3) assms(5)] run [OF assms(4) assms(6)] show ?thesis by blast
qed

theorem written_text_determined_witness:
  "distinct tools \<and> ''DatabaseSchemaTool.ts'' \<in> set tools \<and>
   usable tools world_only_database \<and> usable tools world_all \<and>
   text_at world_only_database ''DatabaseSchemaTool.ts'' = Some legacy_module \<and>
   text_at world_all ''DatabaseSchemaTool.ts'' = Some legacy_module \<and>
   (\<exists>w1' w2'. main world_only_database = Inr w1' \<and> main world_all = Inr w2' \<and>
      text_at w1' ''DatabaseSchemaTool.ts'' = Some (fix_content ''DatabaseSchemaTool.ts'' legacy_module) \<and>
      text_at w2' ''DatabaseSchemaTool.ts'' = Some (fix_content ''DatabaseSchemaTool.ts'' legacy_module))"
proof -
  have 1: "distinct tools" by code_simp
  have 2: "''DatabaseSchemaTool.ts'' \<in> set tools" by code_simp
  have 3: "usable tools world_only_database" by code_simp
  have 4: "usable tools world_all" by code_simp
  have 5: "text_at world_only_database ''DatabaseSchemaTool.ts'' = Some legacy_module" by code_simp
  have 6: "text_at world_all ''DatabaseSchemaTool.ts'' = Some legacy_module" by code_simp
  from written_text_determined [OF 1 2 3 4 5 6] 1 2 3 4 5 6 show ?thesis
    unfolding main_def by blast
qed

end
